theory Spec2Isabelle
  imports Main "HOL-Library.Option_ord" "HOL-Library.Product_Lexorder"
begin

section \<open>Data model (app.py)\<close>

text \<open>
  The two entity tables of \<^verbatim>\<open>app.py\<close>. A \<^verbatim>\<open>News\<close> row has the columns
  \<^verbatim>\<open>id, by, time, title, url, like_count, dislike_count\<close>; the four descriptive columns
  are nullable. A \<^verbatim>\<open>User\<close> row has its profile columns and the two relationship
  collections \<^verbatim>\<open>liked_news\<close> and \<^verbatim>\<open>disliked_news\<close>, which the code uses as Python lists
  (\<^verbatim>\<open>in\<close>, \<^verbatim>\<open>append\<close>, \<^verbatim>\<open>remove\<close>); a collection is kept here as the list of the primary
  keys of the \<^verbatim>\<open>News\<close> rows it holds. Column names that are Isabelle keywords or HOL
  constants carry the table's name as a prefix.
\<close>

record news =
  news_id :: int
  news_by :: "string option"
  news_time :: "int option"
  news_title :: "string option"
  news_url :: "string option"
  like_count :: int
  dislike_count :: int

record user =
  user_id :: int
  given_name :: string
  family_name :: string
  nickname :: string
  user_name :: string
  picture :: string
  email :: string
  email_verified :: bool
  isAdmin :: bool
  liked_news :: "int list"
  disliked_news :: "int list"

record db =
  db_users :: "user list"
  db_news :: "news list"

text \<open>
  \<^verbatim>\<open>User.query.filter_by(email=e).first()\<close>, \<^verbatim>\<open>User.query.get(i)\<close> and
  \<^verbatim>\<open>News.query.get(i)\<close>: the first row that matches, or nothing.
\<close>

definition user_by_email :: "string \<Rightarrow> db \<Rightarrow> user option" where
  "user_by_email e d = find (\<lambda>u. email u = e) (db_users d)"

definition user_get :: "int \<Rightarrow> db \<Rightarrow> user option" where
  "user_get i d = find (\<lambda>u. user_id u = i) (db_users d)"

definition news_get :: "int \<Rightarrow> db \<Rightarrow> news option" where
  "news_get i d = find (\<lambda>n. news_id n = i) (db_news d)"

text \<open>
  An attribute assignment on a loaded row followed by \<^verbatim>\<open>db.session.commit()\<close> rewrites
  that row, the one the query returned, and no other.
\<close>

fun update_first :: "('a \<Rightarrow> bool) \<Rightarrow> ('a \<Rightarrow> 'a) \<Rightarrow> 'a list \<Rightarrow> 'a list" where
  "update_first P f [] = []"
| "update_first P f (x # xs) = (if P x then f x # xs else x # update_first P f xs)"

definition set_user :: "string \<Rightarrow> (user \<Rightarrow> user) \<Rightarrow> db \<Rightarrow> db" where
  "set_user e f d = d\<lparr>db_users := update_first (\<lambda>u. email u = e) f (db_users d)\<rparr>"

definition set_news :: "int \<Rightarrow> (news \<Rightarrow> news) \<Rightarrow> db \<Rightarrow> db" where
  "set_news i f d = d\<lparr>db_news := update_first (\<lambda>n. news_id n = i) f (db_news d)\<rparr>"

section \<open>Reaction ledger: like_news and dislike_news\<close>

text \<open>
  What a route hands back: the JSON body \<^verbatim>\<open>{"result": action}\<close>, the 401 of a request
  without a profile in the session, the 404 of \<^verbatim>\<open>get_or_404\<close>, a redirect, or the
  \<^verbatim>\<open>AttributeError\<close> of reading \<^verbatim>\<open>user.liked_news\<close> when the session's e-mail has no
  \<^verbatim>\<open>User\<close> row. The session is the e-mail of its profile, if it has one.
\<close>

datatype response =
    Result string
  | Not_logged_in_401
  | Not_found_404
  | Attribute_error
  | Redirect string

definition like_news :: "string option \<Rightarrow> int \<Rightarrow> db \<Rightarrow> response \<times> db" where
  "like_news session i d =
    (case session of
       None \<Rightarrow> (Not_logged_in_401, d)
     | Some user_email \<Rightarrow>
        (case news_get i d of
           None \<Rightarrow> (Not_found_404, d)
         | Some news_item \<Rightarrow>
            (case user_by_email user_email d of
               None \<Rightarrow> (Attribute_error, d)
             | Some u \<Rightarrow>
                if i \<in> set (liked_news u) then
                  (Result ''unliked'',
                   set_news i (\<lambda>n. n\<lparr>like_count := like_count n - 1\<rparr>)
                    (set_user user_email
                      (\<lambda>u. u\<lparr>liked_news := remove1 i (liked_news u)\<rparr>) d))
                else if i \<in> set (disliked_news u) then
                  (Result ''switched_to_like'',
                   set_news i (\<lambda>n. n\<lparr>dislike_count := dislike_count n - 1\<rparr>)
                    (set_news i (\<lambda>n. n\<lparr>like_count := like_count n + 1\<rparr>)
                      (set_user user_email
                        (\<lambda>u. u\<lparr>liked_news := liked_news u @ [i]\<rparr>)
                        (set_user user_email
                          (\<lambda>u. u\<lparr>disliked_news := remove1 i (disliked_news u)\<rparr>) d))))
                else
                  (Result ''liked'',
                   set_news i (\<lambda>n. n\<lparr>like_count := like_count n + 1\<rparr>)
                    (set_user user_email
                      (\<lambda>u. u\<lparr>liked_news := liked_news u @ [i]\<rparr>) d)))))"

definition dislike_news :: "string option \<Rightarrow> int \<Rightarrow> db \<Rightarrow> response \<times> db" where
  "dislike_news session i d =
    (case session of
       None \<Rightarrow> (Not_logged_in_401, d)
     | Some user_email \<Rightarrow>
        (case news_get i d of
           None \<Rightarrow> (Not_found_404, d)
         | Some news_item \<Rightarrow>
            (case user_by_email user_email d of
               None \<Rightarrow> (Attribute_error, d)
             | Some u \<Rightarrow>
                if i \<in> set (disliked_news u) then
                  (Result ''undisliked'',
                   set_news i (\<lambda>n. n\<lparr>dislike_count := dislike_count n - 1\<rparr>)
                    (set_user user_email
                      (\<lambda>u. u\<lparr>disliked_news := remove1 i (disliked_news u)\<rparr>) d))
                else if i \<in> set (liked_news u) then
                  (Result ''switched_to_dislike'',
                   set_user user_email
                    (\<lambda>u. u\<lparr>disliked_news := disliked_news u @ [i]\<rparr>)
                    (set_news i (\<lambda>n. n\<lparr>like_count := like_count n - 1\<rparr>)
                      (set_news i (\<lambda>n. n\<lparr>dislike_count := dislike_count n + 1\<rparr>)
                        (set_user user_email
                          (\<lambda>u. u\<lparr>liked_news := remove1 i (liked_news u)\<rparr>) d))))
                else
                  (Result ''disliked'',
                   set_news i (\<lambda>n. n\<lparr>dislike_count := dislike_count n + 1\<rparr>)
                    (set_user user_email
                      (\<lambda>u. u\<lparr>disliked_news := disliked_news u @ [i]\<rparr>) d)))))"

text \<open>
  The two POST routes \<^verbatim>\<open>/like_news/<id>\<close> and \<^verbatim>\<open>/dislike_news/<id>\<close> together are the
  ledger's \<^verbatim>\<open>react\<close>; a request is a session, an intent and an item identifier, and a
  run of requests threads the database through them.
\<close>

datatype intent = Like | Dislike

fun react :: "string option \<Rightarrow> intent \<Rightarrow> int \<Rightarrow> db \<Rightarrow> response \<times> db" where
  "react session Like i d = like_news session i d"
| "react session Dislike i d = dislike_news session i d"

fun react_all :: "(string option \<times> intent \<times> int) list \<Rightarrow> db \<Rightarrow> db" where
  "react_all [] d = d"
| "react_all ((session, t, i) # rs) d = react_all rs (snd (react session t i d))"

text \<open>
  The association tables \<^verbatim>\<open>likes\<close> and \<^verbatim>\<open>dislikes\<close> have the pair
  \<^verbatim>\<open>(user_id, news_id)\<close> as primary key, so a collection read from the store never
  holds a row twice; \<open>exclusive\<close> adds that no row is in both collections of a user.
\<close>

definition exclusive :: "user \<Rightarrow> bool" where
  "exclusive u \<longleftrightarrow>
     distinct (liked_news u) \<and> distinct (disliked_news u) \<and>
     list_all (\<lambda>i. i \<notin> set (disliked_news u)) (liked_news u)"

text \<open>How many users hold item \<open>i\<close> in the collection \<open>c\<close>.\<close>

definition holders :: "(user \<Rightarrow> int list) \<Rightarrow> int \<Rightarrow> db \<Rightarrow> int" where
  "holders c i d = sum_list (map (\<lambda>u. int (count_list (c u) i)) (db_users d))"


text \<open>
  Section 4.3 of the specification as a table: from a membership and an intent to the
  new membership, the change of \<^verbatim>\<open>like_count\<close>, the change of \<^verbatim>\<open>dislike_count\<close> and the
  tag returned. \<open>membership_of\<close> reads a user's membership of an item off the two
  collections.
\<close>

datatype membership = Neither | Liked | Disliked

definition membership_of :: "user \<Rightarrow> int \<Rightarrow> membership" where
  "membership_of u i =
     (if i \<in> set (liked_news u) then Liked
      else if i \<in> set (disliked_news u) then Disliked else Neither)"

fun spec_transition :: "membership \<Rightarrow> intent \<Rightarrow> membership \<times> int \<times> int \<times> string" where
  "spec_transition Neither Like = (Liked, 1, 0, ''liked'')"
| "spec_transition Neither Dislike = (Disliked, 0, 1, ''disliked'')"
| "spec_transition Liked Like = (Neither, - 1, 0, ''unliked'')"
| "spec_transition Liked Dislike = (Disliked, - 1, 1, ''switched_to_dislike'')"
| "spec_transition Disliked Like = (Liked, 1, - 1, ''switched_to_like'')"
| "spec_transition Disliked Dislike = (Neither, 0, - 1, ''undisliked'')"

text \<open>The counters of item \<open>i\<close> agree with the users' collections.\<close>

definition counted :: "int \<Rightarrow> db \<Rightarrow> bool" where
  "counted i d \<longleftrightarrow>
     (case news_get i d of
        None \<Rightarrow> False
      | Some n \<Rightarrow> like_count n = holders liked_news i d \<and>
                  dislike_count n = holders disliked_news i d)"

section \<open>Deleting rows\<close>

text \<open>
  \<^verbatim>\<open>db.session.delete(news)\<close> for each of the rows with the given primary keys, committed:
  the rows leave the \<^verbatim>\<open>news\<close> table, and with them their rows of the two association
  tables (the backrefs \<^verbatim>\<open>liked_by\<close> and \<^verbatim>\<open>disliked_by\<close>), so they leave every user's
  collections.
\<close>

definition delete_news :: "int list \<Rightarrow> db \<Rightarrow> db" where
  "delete_news ids d =
     \<lparr>db_users = map (\<lambda>u. u\<lparr>liked_news := filter (\<lambda>i. i \<notin> set ids) (liked_news u),
                              disliked_news := filter (\<lambda>i. i \<notin> set ids) (disliked_news u)\<rparr>)
                     (db_users d),
      db_news = filter (\<lambda>n. news_id n \<notin> set ids) (db_news d)\<rparr>"

text \<open>
  \<^verbatim>\<open>db.session.delete(user)\<close>: the \<^verbatim>\<open>user\<close> row goes, and since both relationships of
  \<^verbatim>\<open>User\<close> are declared with \<^verbatim>\<open>cascade="all, delete"\<close>, the deletion cascades to the
  \<^verbatim>\<open>News\<close> rows in \<^verbatim>\<open>user.liked_news\<close> and \<^verbatim>\<open>user.disliked_news\<close>.
\<close>

definition session_delete_user :: "user \<Rightarrow> db \<Rightarrow> db" where
  "session_delete_user u d =
     delete_news (liked_news u @ disliked_news u)
       (d\<lparr>db_users := filter (\<lambda>v. user_id v \<noteq> user_id u) (db_users d)\<rparr>)"

definition delete_user :: "string option \<Rightarrow> int \<Rightarrow> db \<Rightarrow> response \<times> db" where
  "delete_user session i d =
    (case session of
       None \<Rightarrow> (Redirect ''login'', d)
     | Some user_email \<Rightarrow>
        (case user_by_email user_email d of
           None \<Rightarrow> (Redirect ''home'', d)
         | Some admin \<Rightarrow>
            if \<not> isAdmin admin then (Redirect ''home'', d)
            else
              (case user_get i d of
                 None \<Rightarrow> (Not_found_404, d)
               | Some u \<Rightarrow>
                  (Redirect ''user_list'',
                   session_delete_user u
                    (fold (\<lambda>j. set_news j (\<lambda>n. n\<lparr>dislike_count := dislike_count n - 1\<rparr>))
                      (disliked_news u)
                      (fold (\<lambda>j. set_news j (\<lambda>n. n\<lparr>like_count := like_count n - 1\<rparr>))
                        (liked_news u) d))))))"

section \<open>Feed synchronizer (fetch_hackernews.py)\<close>

text \<open>
  The upstream feed is what the two \<^verbatim>\<open>requests.get(...).json()\<close> calls give: either call
  raises a \<^verbatim>\<open>RequestException\<close> (a connection error, or a body that is not JSON, which
  \<^verbatim>\<open>requests\<close> reports as its \<^verbatim>\<open>JSONDecodeError\<close>, a \<^verbatim>\<open>RequestException\<close>), or returns the
  decoded body: the list of identifiers for the index, and for an item whatever JSON the
  endpoint answered. Line 45 reads \<^verbatim>\<open>news_data["id"]\<close> outside the \<^verbatim>\<open>try\<close>: on the body
  \<^verbatim>\<open>null\<close> that is a \<^verbatim>\<open>TypeError\<close>, on an object without \<^verbatim>\<open>"id"\<close> a \<^verbatim>\<open>KeyError\<close>, and
  neither is caught. On an object with an \<^verbatim>\<open>id\<close> the fields \<^verbatim>\<open>by, time, title, url\<close> are
  read with \<^verbatim>\<open>.get\<close>.
\<close>

datatype request_exception = Connection_error | JSON_decode_error

record news_data =
  data_id :: int
  data_by :: "string option"
  data_time :: "int option"
  data_title :: "string option"
  data_url :: "string option"

datatype index_response = Index_raises request_exception | Index_ids "int list"

datatype item_response =
    Item_raises request_exception
  | Item_null
  | Item_without_id
  | Item_data news_data

datatype python_error = Type_error | Key_error

record upstream =
  topstories :: index_response
  item :: "int \<Rightarrow> item_response"

text \<open>The lines the function prints.\<close>

datatype log_line = Error_top_stories request_exception | Error_news_item int request_exception

text \<open>
  The body of the loop after a successful fetch (lines 44 to 58): look the row up by
  \<^verbatim>\<open>news_data["id"]\<close>, create it when there is none, assign the four fields. A created
  row takes the column default 0 for both counters.
\<close>

definition overwrite :: "news_data \<Rightarrow> news \<Rightarrow> news" where
  "overwrite news_data n =
     n\<lparr>news_by := data_by news_data, news_time := data_time news_data,
       news_title := data_title news_data, news_url := data_url news_data\<rparr>"

definition News :: "int \<Rightarrow> news" where
  "News i =
     \<lparr>news_id = i, news_by = None, news_time = None, news_title = None, news_url = None,
      like_count = 0, dislike_count = 0\<rparr>"

definition upsert :: "news_data \<Rightarrow> db \<Rightarrow> db" where
  "upsert news_data d =
    (case news_get (data_id news_data) d of
       None \<Rightarrow> d\<lparr>db_news := db_news d @ [overwrite news_data (News (data_id news_data))]\<rparr>
     | Some news_item \<Rightarrow> set_news (data_id news_data) (overwrite news_data) d)"

text \<open>The detail that is applied last to identifier \<open>i\<close> by a run of upserts.\<close>

fun latest :: "news_data list \<Rightarrow> int \<Rightarrow> news_data option" where
  "latest [] i = None"
| "latest (nd # ds) i =
    (case latest ds i of
       Some x \<Rightarrow> Some x
     | None \<Rightarrow> if data_id nd = i then Some nd else None)"

text \<open>
  The loop over the identifiers (lines 34 to 58), on the session's view of the store. A
  fetch that raises a \<^verbatim>\<open>RequestException\<close> is logged and skipped. A body without an
  \<^verbatim>\<open>id\<close> ends the loop with the uncaught exception of line 45 (\<open>Inl\<close>); otherwise the
  loop ends with the rows to commit (\<open>Inr\<close>).
\<close>

fun fetch_items ::
  "(int \<Rightarrow> item_response) \<Rightarrow> int list \<Rightarrow> db \<Rightarrow> log_line list \<times> (python_error + db)" where
  "fetch_items fetch [] d = ([], Inr d)"
| "fetch_items fetch (i # news_ids) d =
    (case fetch i of
       Item_raises e \<Rightarrow>
         (case fetch_items fetch news_ids d of (log, r) \<Rightarrow> (Error_news_item i e # log, r))
     | Item_null \<Rightarrow> ([], Inl Type_error)
     | Item_without_id \<Rightarrow> ([], Inl Key_error)
     | Item_data news_data \<Rightarrow> fetch_items fetch news_ids (upsert news_data d))"

text \<open>
  \<^verbatim>\<open>News.query.order_by(News.time.asc()).limit(k).all()\<close>. A NULL time sorts before
  every number, as \<open>None\<close> does below \<open>Some\<close>; rows of equal time come in
  the order of the primary key, the order in which the table is scanned.
\<close>

definition oldest_news :: "nat \<Rightarrow> db \<Rightarrow> news list" where
  "oldest_news k d = take k (sort_key (\<lambda>n. (news_time n, news_id n)) (db_news d))"

definition prune :: "db \<Rightarrow> db" where
  "prune d =
    (let news_count = length (db_news d) in
     if news_count > 150
     then delete_news (map news_id (oldest_news (news_count - 150) d)) d
     else d)"

text \<open>
  The whole pass: what it printed, the exception that left it uncaught (if any), and
  the store afterwards. When the first fetch raises, the function returns at once. When
  the loop ends with an exception, \<^verbatim>\<open>db.session.commit()\<close> at line 60 is never reached and
  the store keeps the rows it had. Otherwise the upserts are committed and the prune
  follows.
\<close>

definition fetch_hackernews ::
  "upstream \<Rightarrow> db \<Rightarrow> (log_line list \<times> python_error option) \<times> db" where
  "fetch_hackernews up d =
    (case topstories up of
       Index_raises e \<Rightarrow> (([Error_top_stories e], None), d)
     | Index_ids news_ids \<Rightarrow>
        (case fetch_items (item up) (take 50 news_ids) d of
           (log, Inl e) \<Rightarrow> ((log, Some e), d)
         | (log, Inr d') \<Rightarrow> ((log, None), prune d')))"

text \<open>
  The details that the loop upserts, in the order of their identifiers: those fetched
  before the loop ends.
\<close>

fun fetched :: "(int \<Rightarrow> item_response) \<Rightarrow> int list \<Rightarrow> news_data list" where
  "fetched fetch [] = []"
| "fetched fetch (i # news_ids) =
    (case fetch i of
       Item_raises e \<Rightarrow> fetched fetch news_ids
     | Item_null \<Rightarrow> []
     | Item_without_id \<Rightarrow> []
     | Item_data news_data \<Rightarrow> news_data # fetched fetch news_ids)"

section \<open>A small store\<close>

text \<open>The fixtures of \<^verbatim>\<open>test_app.py\<close>: one item, one user, and an administrator.\<close>

definition test_news :: news where
  "test_news =
     \<lparr>news_id = 1, news_by = Some ''author'', news_time = Some 123456789,
      news_title = Some ''Sample News Title'', news_url = Some ''http://example.com/news'',
      like_count = 0, dislike_count = 0\<rparr>"

definition test_user :: user where
  "test_user =
     \<lparr>user_id = 1, given_name = ''Test'', family_name = ''User'', nickname = ''testuser'',
      user_name = ''Test User'', picture = ''default.jpg'', email = ''test@example.com'',
      email_verified = True, isAdmin = False, liked_news = [], disliked_news = []\<rparr>"

definition test_db :: db where
  "test_db = \<lparr>db_users = [test_user], db_news = [test_news]\<rparr>"

text \<open>
  The feed of \<^verbatim>\<open>test_fetch_hackernews.py\<close>, with the fetch of item 2 failing; a feed
  that answers \<^verbatim>\<open>null\<close> for item 2, asked for last; and a feed whose index cannot be
  fetched.
\<close>

definition test_item :: "int \<Rightarrow> news_data" where
  "test_item i =
     \<lparr>data_id = i, data_by = Some ''author1'', data_time = Some (123455 + i),
      data_title = Some ''Updated News 1'', data_url = Some ''http://example.com/1''\<rparr>"

definition test_upstream :: upstream where
  "test_upstream =
     \<lparr>topstories = Index_ids [1, 2, 3],
      item = (\<lambda>i. if i = 2 then Item_raises Connection_error else Item_data (test_item i))\<rparr>"

definition test_upstream_null :: upstream where
  "test_upstream_null =
     \<lparr>topstories = Index_ids [1, 3, 2],
      item = (\<lambda>i. if i = 2 then Item_null else Item_data (test_item i))\<rparr>"

definition test_upstream_down :: upstream where
  "test_upstream_down =
     \<lparr>topstories = Index_raises Connection_error,
      item = (\<lambda>i. Item_raises Connection_error)\<rparr>"

text \<open>
  A store for the admin route: an administrator, and a reader who liked item 10 (three
  likes) and disliked item 20 (two dislikes) and never reacted to item 30.
\<close>

definition admin_user :: user where
  "admin_user =
     \<lparr>user_id = 1, given_name = ''Jane'', family_name = ''Admin'', nickname = ''jane'',
      user_name = ''Jane Admin'', picture = ''default.jpg'', email = ''jane.kalashn@gmail.com'',
      email_verified = True, isAdmin = True, liked_news = [], disliked_news = []\<rparr>"

definition reader_user :: user where
  "reader_user =
     \<lparr>user_id = 2, given_name = ''Test'', family_name = ''User'', nickname = ''testuser'',
      user_name = ''Test User'', picture = ''default.jpg'', email = ''test@example.com'',
      email_verified = True, isAdmin = False, liked_news = [10], disliked_news = [20]\<rparr>"

definition news_A :: news where
  "news_A = \<lparr>news_id = 10, news_by = Some ''author'', news_time = Some 123456,
      news_title = Some ''A'', news_url = None, like_count = 3, dislike_count = 0\<rparr>"

definition news_B :: news where
  "news_B = \<lparr>news_id = 20, news_by = Some ''author'', news_time = Some 123457,
      news_title = Some ''B'', news_url = None, like_count = 0, dislike_count = 2\<rparr>"

definition news_C :: news where
  "news_C = \<lparr>news_id = 30, news_by = Some ''author'', news_time = Some 123458,
      news_title = Some ''C'', news_url = None, like_count = 1, dislike_count = 1\<rparr>"

definition admin_db :: db where
  "admin_db = \<lparr>db_users = [admin_user, reader_user], db_news = [news_A, news_B, news_C]\<rparr>"

section \<open>Rows found and rewritten\<close>

lemma find_update_first_same:
  "(\<And>x. P x \<Longrightarrow> P (f x)) \<Longrightarrow> find P (update_first P f xs) = map_option f (find P xs)"
  by (induction xs) auto

lemma find_update_first_other:
  "(\<And>x. P x \<Longrightarrow> \<not> Q x \<and> \<not> Q (f x)) \<Longrightarrow> find Q (update_first P f xs) = find Q xs"
  by (induction xs) auto

lemma sum_update_first:
  fixes g :: "'a \<Rightarrow> int"
  shows "find P xs = Some x \<Longrightarrow>
    sum_list (map g (update_first P f xs)) = sum_list (map g xs) - g x + g (f x)"
  by (induction xs) (auto split: if_splits)

lemma update_first_twice:
  "(\<And>x. P x \<Longrightarrow> P (f x)) \<Longrightarrow>
   update_first P g (update_first P f xs) = update_first P (\<lambda>x. g (f x)) xs"
  by (induction xs) auto

lemma list_all_update_first_found:
  "find P xs = Some u \<Longrightarrow> list_all Q xs \<Longrightarrow> Q (f u) \<Longrightarrow> list_all Q (update_first P f xs)"
  by (induction xs) (auto split: if_splits)

lemma find_Some_in_set: "find P xs = Some u \<Longrightarrow> u \<in> set xs"
  by (induction xs) (auto split: if_splits)

lemma count_list_remove1_if:
  "count_list (remove1 i xs) j =
     (if i = j \<and> i \<in> set xs then count_list xs j - 1 else count_list xs j)"
  by (induction xs) auto

lemma count_list_pos: "i \<in> set xs \<Longrightarrow> 0 < count_list xs i"
  by (induction xs) auto

lemma user_by_email_set_user:
  "(\<And>x. email (f x) = email x) \<Longrightarrow>
   user_by_email e (set_user e f d) = map_option f (user_by_email e d)"
  by (simp add: user_by_email_def set_user_def find_update_first_same)

lemma user_by_email_set_news [simp]: "user_by_email e (set_news i f d) = user_by_email e d"
  by (simp add: user_by_email_def set_news_def)

lemma news_get_set_user [simp]: "news_get i (set_user e f d) = news_get i d"
  by (simp add: news_get_def set_user_def)

lemma news_get_set_news_same:
  "(\<And>x. news_id (f x) = news_id x) \<Longrightarrow>
   news_get i (set_news i f d) = map_option f (news_get i d)"
  by (simp add: news_get_def set_news_def find_update_first_same)

lemma news_get_set_news_other:
  "(\<And>x. news_id (f x) = news_id x) \<Longrightarrow> j \<noteq> i \<Longrightarrow>
   news_get j (set_news i f d) = news_get j d"
  unfolding news_get_def set_news_def by (simp, rule find_update_first_other) auto

lemma db_users_set_news [simp]: "db_users (set_news i f d) = db_users d"
  by (simp add: set_news_def)

lemma holders_set_news [simp]: "holders c j (set_news i f d) = holders c j d"
  by (simp add: holders_def)

lemma holders_set_user:
  "user_by_email e d = Some u \<Longrightarrow>
   holders c j (set_user e f d) =
     holders c j d - int (count_list (c u) j) + int (count_list (c (f u)) j)"
  unfolding holders_def set_user_def user_by_email_def
  by (simp add: sum_update_first [where g = "\<lambda>u. int (count_list (c u) j)"])

lemma holders_nonneg: "0 \<le> holders c i d"
  unfolding holders_def by (rule sum_list_nonneg) auto

lemma set_user_twice:
  "(\<And>x. email (f x) = email x) \<Longrightarrow>
   set_user e g (set_user e f d) = set_user e (\<lambda>x. g (f x)) d"
  unfolding set_user_def by (simp add: update_first_twice)

lemma set_user_set_news:
  "set_user e g (set_news j f d) = set_news j f (set_user e g d)"
  by (simp add: set_user_def set_news_def)

lemma exclusive_set_user:
  "user_by_email e d = Some u \<Longrightarrow> list_all exclusive (db_users d) \<Longrightarrow> exclusive (f u) \<Longrightarrow>
   list_all exclusive (db_users (set_user e f d))"
  unfolding user_by_email_def set_user_def
  by (simp add: list_all_update_first_found)

section \<open>The reaction ledger follows its state machine\<close>

text \<open>
  C1. For a logged-in user with a row, whose collections are exclusive, and a stored
  item, a react call does what the table of section 4.3 says for the user's membership
  and the intent: it returns the table's tag, the user's membership of the item becomes
  the table's new membership (and the collections stay exclusive), and the item's row
  is the old row with the table's two counter changes applied and nothing else changed.
\<close>

theorem react_state_machine:
  assumes "user_by_email e d = Some u" and "news_get i d = Some n" and "exclusive u"
    and "spec_transition (membership_of u i) t = (m', dl, dd, tag)"
  shows "\<exists>d' u'. react (Some e) t i d = (Result tag, d') \<and>
           user_by_email e d' = Some u' \<and> exclusive u' \<and> membership_of u' i = m' \<and>
           news_get i d' = Some (n\<lparr>like_count := like_count n + dl,
                                    dislike_count := dislike_count n + dd\<rparr>)"
  using assms
  by (cases t; cases "membership_of u i")
     (auto simp: like_news_def dislike_news_def membership_of_def exclusive_def
        user_by_email_set_user news_get_set_news_same list_all_iff
        split: if_splits)

theorem react_state_machine_witness:
  "user_by_email ''test@example.com'' test_db = Some test_user \<and>
   news_get 1 test_db = Some test_news \<and> exclusive test_user \<and>
   spec_transition (membership_of test_user 1) Like = (Liked, 1, 0, ''liked'') \<and>
   (\<exists>d' u'. react (Some ''test@example.com'') Like 1 test_db = (Result ''liked'', d') \<and>
      user_by_email ''test@example.com'' d' = Some u' \<and> exclusive u' \<and>
      membership_of u' 1 = Liked \<and>
      news_get 1 d' = Some (test_news\<lparr>like_count := like_count test_news + 1,
                                       dislike_count := dislike_count test_news + 0\<rparr>))"
proof -
  have h1: "user_by_email ''test@example.com'' test_db = Some test_user"
    by (simp add: user_by_email_def test_db_def test_user_def)
  have h2: "news_get 1 test_db = Some test_news"
    by (simp add: news_get_def test_db_def test_news_def)
  have h3: "exclusive test_user"
    by (simp add: exclusive_def test_user_def)
  have h4: "spec_transition (membership_of test_user 1) Like = (Liked, 1, 0, ''liked'')"
    by (simp add: membership_of_def test_user_def)
  from react_state_machine [OF h1 h2 h3 h4] h1 h2 h3 h4 show ?thesis by blast
qed

section \<open>Mutual exclusion of the two collections\<close>

lemma like_news_exclusive:
  assumes "list_all exclusive (db_users d)"
  shows "list_all exclusive (db_users (snd (like_news s i d)))"
proof (cases "\<exists>e u n. s = Some e \<and> user_by_email e d = Some u \<and> news_get i d = Some n")
  case False
  then show ?thesis using assms
    by (auto simp: like_news_def split: option.splits)
next
  case True
  then obtain e u n where s: "s = Some e" and u: "user_by_email e d = Some u"
    and n: "news_get i d = Some n" by blast
  from u assms have ex: "exclusive u"
    by (auto simp: user_by_email_def list_all_iff dest: find_Some_in_set)
  have "exclusive (f u) \<Longrightarrow> list_all exclusive (db_users (set_user e f d))" for f
    by (rule exclusive_set_user [OF u assms])
  moreover have "exclusive (u\<lparr>liked_news := remove1 i (liked_news u)\<rparr>)"
    using ex by (auto simp: exclusive_def list_all_iff)
  moreover have "i \<notin> set (liked_news u) \<Longrightarrow>
      exclusive (u\<lparr>disliked_news := remove1 i (disliked_news u),
                   liked_news := liked_news u @ [i]\<rparr>)"
    using ex by (auto simp: exclusive_def list_all_iff)
  moreover have "i \<notin> set (liked_news u) \<Longrightarrow> i \<notin> set (disliked_news u) \<Longrightarrow>
      exclusive (u\<lparr>liked_news := liked_news u @ [i]\<rparr>)"
    using ex by (auto simp: exclusive_def list_all_iff)
  ultimately show ?thesis
    unfolding like_news_def s by (simp add: u n set_user_twice)
qed

lemma dislike_news_exclusive:
  assumes "list_all exclusive (db_users d)"
  shows "list_all exclusive (db_users (snd (dislike_news s i d)))"
proof (cases "\<exists>e u n. s = Some e \<and> user_by_email e d = Some u \<and> news_get i d = Some n")
  case False
  then show ?thesis using assms
    by (auto simp: dislike_news_def split: option.splits)
next
  case True
  then obtain e u n where s: "s = Some e" and u: "user_by_email e d = Some u"
    and n: "news_get i d = Some n" by blast
  from u assms have ex: "exclusive u"
    by (auto simp: user_by_email_def list_all_iff dest: find_Some_in_set)
  have "exclusive (f u) \<Longrightarrow> list_all exclusive (db_users (set_user e f d))" for f
    by (rule exclusive_set_user [OF u assms])
  moreover have "exclusive (u\<lparr>disliked_news := remove1 i (disliked_news u)\<rparr>)"
    using ex by (auto simp: exclusive_def list_all_iff)
  moreover have "i \<notin> set (disliked_news u) \<Longrightarrow>
      exclusive (u\<lparr>liked_news := remove1 i (liked_news u),
                   disliked_news := disliked_news u @ [i]\<rparr>)"
    using ex by (auto simp: exclusive_def list_all_iff)
  moreover have "i \<notin> set (liked_news u) \<Longrightarrow> i \<notin> set (disliked_news u) \<Longrightarrow>
      exclusive (u\<lparr>disliked_news := disliked_news u @ [i]\<rparr>)"
    using ex by (auto simp: exclusive_def list_all_iff)
  ultimately show ?thesis
    unfolding dislike_news_def s by (simp add: u n set_user_set_news set_user_twice)
qed

text \<open>
  C2. When every user's collections are exclusive (each without repetition, as the
  association tables' primary keys make them, and no item in both), they are so after
  any run of react requests, by whatever sessions and on whatever items: no item is in
  both the liked and the disliked collection of a user. A run of one request is the
  single react operation.
\<close>

theorem react_all_exclusive:
  assumes "list_all exclusive (db_users d)"
  shows "list_all exclusive (db_users (react_all rs d)) \<and>
         (\<forall>u \<in> set (db_users (react_all rs d)). \<forall>i.
            \<not> (i \<in> set (liked_news u) \<and> i \<in> set (disliked_news u)))"
proof -
  have "list_all exclusive (db_users (react_all rs d))" using assms
  proof (induction rs arbitrary: d)
    case Nil
    then show ?case by simp
  next
    case (Cons r rs)
    obtain s t i where r: "r = (s, t, i)" by (cases r)
    have "list_all exclusive (db_users (snd (react s t i d)))"
      using Cons.prems by (cases t) (simp_all add: like_news_exclusive dislike_news_exclusive)
    then show ?case unfolding r by (simp add: Cons.IH)
  qed
  then show ?thesis by (auto simp: list_all_iff exclusive_def)
qed

theorem react_all_exclusive_witness:
  "list_all exclusive (db_users test_db) \<and>
   list_all exclusive
     (db_users (react_all [(Some ''test@example.com'', Dislike, 1),
                           (Some ''test@example.com'', Like, 1)] test_db))"
proof -
  have h: "list_all exclusive (db_users test_db)"
    by (simp add: test_db_def test_user_def exclusive_def)
  from react_all_exclusive [OF h] h show ?thesis by blast
qed

section \<open>Counters never go below zero\<close>

lemma like_news_counted:
  assumes "counted i d"
  shows "counted i (snd (like_news s j d))"
proof (cases "\<exists>e u n. s = Some e \<and> user_by_email e d = Some u \<and> news_get j d = Some n")
  case False
  then show ?thesis using assms
    by (auto simp: like_news_def split: option.splits)
next
  case True
  then obtain e u n where s: "s = Some e" and u: "user_by_email e d = Some u"
    and n: "news_get j d = Some n" by blast
  show ?thesis
  proof (cases "j = i")
    case True
    note n' = n [unfolded True]
    show ?thesis
      using assms unfolding like_news_def s counted_def True
      by (auto simp: u n' set_user_twice holders_set_user [OF u] news_get_set_news_same
            count_list_remove1_if dest: count_list_pos)
  next
    case False
    then show ?thesis
      using assms unfolding like_news_def s counted_def
      by (auto simp: u n set_user_twice holders_set_user [OF u] news_get_set_news_other
            count_list_remove1_if split: option.splits)
  qed
qed

lemma dislike_news_counted:
  assumes "counted i d"
  shows "counted i (snd (dislike_news s j d))"
proof (cases "\<exists>e u n. s = Some e \<and> user_by_email e d = Some u \<and> news_get j d = Some n")
  case False
  then show ?thesis using assms
    by (auto simp: dislike_news_def split: option.splits)
next
  case True
  then obtain e u n where s: "s = Some e" and u: "user_by_email e d = Some u"
    and n: "news_get j d = Some n" by blast
  show ?thesis
  proof (cases "j = i")
    case True
    note n' = n [unfolded True]
    show ?thesis
      using assms unfolding dislike_news_def s counted_def True
      by (auto simp: u n' set_user_set_news set_user_twice holders_set_user [OF u]
            news_get_set_news_same count_list_remove1_if dest: count_list_pos)
  next
    case False
    then show ?thesis
      using assms unfolding dislike_news_def s counted_def
      by (auto simp: u n set_user_set_news set_user_twice holders_set_user [OF u]
            news_get_set_news_other count_list_remove1_if split: option.splits)
  qed
qed

lemma react_all_counted: "counted i d \<Longrightarrow> counted i (react_all rs d)"
proof (induction rs arbitrary: d)
  case Nil
  then show ?case by simp
next
  case (Cons r rs)
  obtain s t j where r: "r = (s, t, j)" by (cases r)
  have "counted i (snd (react s t j d))"
    using Cons.prems by (cases t) (simp_all add: like_news_counted dislike_news_counted)
  then show ?case unfolding r by (simp add: Cons.IH)
qed

text \<open>
  C3. Start from a store in which item \<open>i\<close> has both counters at zero and is in no
  user's liked or disliked collection. After any run of react requests (any sessions,
  any items, failing requests included, which change nothing) the item is still stored,
  its \<^verbatim>\<open>like_count\<close> is the number of users holding it as liked and its
  \<^verbatim>\<open>dislike_count\<close> the number holding it as disliked, so neither is negative. Every
  prefix of a run is a run, so this holds after every call.
\<close>

theorem react_all_counts_nonneg:
  assumes "news_get i d = Some n" and "like_count n = 0" and "dislike_count n = 0"
    and "list_all (\<lambda>u. i \<notin> set (liked_news u) \<and> i \<notin> set (disliked_news u)) (db_users d)"
  shows "\<exists>n'. news_get i (react_all rs d) = Some n' \<and>
           like_count n' = holders liked_news i (react_all rs d) \<and>
           dislike_count n' = holders disliked_news i (react_all rs d) \<and>
           0 \<le> like_count n' \<and> 0 \<le> dislike_count n'"
proof -
  have "holders c i d = 0" if "\<forall>u \<in> set (db_users d). i \<notin> set (c u)" for c
  proof -
    have "sum_list (map (\<lambda>u. int (count_list (c u) i)) us) = 0"
      if "\<forall>u \<in> set us. i \<notin> set (c u)" for us
      using that by (induction us) simp_all
    with that show ?thesis by (simp add: holders_def)
  qed
  then have "holders liked_news i d = 0" "holders disliked_news i d = 0"
    using assms(4) by (simp_all add: list_all_iff)
  then have "counted i d"
    using assms(1-3) by (simp add: counted_def)
  then have "counted i (react_all rs d)"
    by (rule react_all_counted)
  then show ?thesis
    by (auto simp: counted_def holders_nonneg split: option.splits)
qed

theorem react_all_counts_nonneg_witness:
  "news_get 1 test_db = Some test_news \<and> like_count test_news = 0 \<and>
   dislike_count test_news = 0 \<and>
   list_all (\<lambda>u. 1 \<notin> set (liked_news u) \<and> 1 \<notin> set (disliked_news u)) (db_users test_db) \<and>
   (\<exists>n'. news_get 1 (react_all [(Some ''test@example.com'', Like, 1),
                                 (Some ''test@example.com'', Like, 1)] test_db) = Some n' \<and>
      0 \<le> like_count n' \<and> 0 \<le> dislike_count n')"
proof -
  have h1: "news_get 1 test_db = Some test_news"
    by (simp add: news_get_def test_db_def test_news_def)
  have h2: "like_count test_news = 0" and h3: "dislike_count test_news = 0"
    by (simp_all add: test_news_def)
  have h4: "list_all (\<lambda>u. 1 \<notin> set (liked_news u) \<and> 1 \<notin> set (disliked_news u))
              (db_users test_db)"
    by (simp add: test_db_def test_user_def)
  from react_all_counts_nonneg [OF h1 h2 h3 h4] h1 h2 h3 h4 show ?thesis by blast
qed

section \<open>Upserting one fetched item\<close>

lemma news_id_overwrite [simp]: "news_id (overwrite nd n) = news_id n"
  by (simp add: overwrite_def)

lemma news_id_News [simp]: "news_id (News i) = i"
  by (simp add: News_def)

lemma find_snoc:
  "find P (xs @ [x]) = (case find P xs of Some r \<Rightarrow> Some r | None \<Rightarrow> if P x then Some x else None)"
  by (induction xs) auto

lemma news_get_upsert:
  "news_get j (upsert nd d) =
     (if j = data_id nd
      then Some (overwrite nd (case news_get j d of None \<Rightarrow> News j | Some n \<Rightarrow> n))
      else news_get j d)"
proof (cases "news_get (data_id nd) d")
  case None
  then show ?thesis
    by (auto simp: upsert_def news_get_def find_snoc split: option.splits)
next
  case (Some n)
  then show ?thesis
    by (auto simp: upsert_def news_get_set_news_same news_get_set_news_other)
qed

lemma db_users_upsert [simp]: "db_users (upsert nd d) = db_users d"
  by (simp add: upsert_def set_news_def split: option.splits)

lemma length_update_first [simp]: "length (update_first P f xs) = length xs"
  by (induction xs) auto

text \<open>
  C6. Upserting a fetched item whose identifier has a row leaves that row with its
  identifier and both counters and with the four fields \<^verbatim>\<open>by, time, title, url\<close> taken
  from the fetched data (absent ones as NULL), and adds no row; for an identifier
  without a row it appends a new row with the fetched fields and both counters 0. The
  rows of other identifiers and the users are as before.
\<close>

theorem upsert_frame:
  "(\<forall>n. news_get (data_id nd) d = Some n \<longrightarrow>
      news_get (data_id nd) (upsert nd d) =
        Some (n\<lparr>news_by := data_by nd, news_time := data_time nd,
                news_title := data_title nd, news_url := data_url nd\<rparr>) \<and>
      length (db_news (upsert nd d)) = length (db_news d)) \<and>
   (news_get (data_id nd) d = None \<longrightarrow>
      db_news (upsert nd d) = db_news d @
        [\<lparr>news_id = data_id nd, news_by = data_by nd, news_time = data_time nd,
          news_title = data_title nd, news_url = data_url nd,
          like_count = 0, dislike_count = 0\<rparr>]) \<and>
   (\<forall>j. j \<noteq> data_id nd \<longrightarrow> news_get j (upsert nd d) = news_get j d) \<and>
   db_users (upsert nd d) = db_users d"
  by (auto simp: news_get_upsert) (auto simp: upsert_def overwrite_def News_def set_news_def)

theorem upsert_frame_witness:
  "news_get (data_id (test_item 1)) test_db = Some test_news \<and>
   news_get (data_id (test_item 1)) (upsert (test_item 1) test_db) =
     Some (test_news\<lparr>news_by := data_by (test_item 1), news_time := data_time (test_item 1),
             news_title := data_title (test_item 1), news_url := data_url (test_item 1)\<rparr>) \<and>
   length (db_news (upsert (test_item 1) test_db)) = length (db_news test_db)"
proof -
  have h: "news_get (data_id (test_item 1)) test_db = Some test_news"
    by (simp add: news_get_def test_db_def test_news_def test_item_def)
  from upsert_frame [of "test_item 1" test_db] h show ?thesis by blast
qed

section \<open>Failures of the upstream feed\<close>

lemma fetch_items_shape:
  "fetch_items fetch news_ids d =
     (case fetch_items fetch news_ids d0 of
        (log, r) \<Rightarrow>
          (log, case r of
                  Inl e \<Rightarrow> Inl e
                | Inr d' \<Rightarrow> Inr (fold upsert (fetched fetch news_ids) d)))"
proof (induction news_ids arbitrary: d d0)
  case Nil
  then show ?case by simp
next
  case (Cons i news_ids)
  show ?case
  proof (cases "fetch i")
    case (Item_raises e)
    then show ?thesis
      using Cons.IH [of d d0] by (simp split: prod.splits sum.splits)
  next
    case Item_null
    then show ?thesis by simp
  next
    case Item_without_id
    then show ?thesis by simp
  next
    case (Item_data nd)
    then show ?thesis
      using Cons.IH [of "upsert nd d" "upsert nd d0"]
      by (simp split: prod.splits sum.splits)
  qed
qed

lemma fetch_items_fold:
  assumes "fetch_items fetch news_ids d = (log, Inr d1)"
  shows "d1 = fold upsert (fetched fetch news_ids) d"
  using fetch_items_shape [of fetch news_ids d d] assms by simp

lemma fetch_items_completes:
  assumes "list_all (\<lambda>i. fetch i \<noteq> Item_null \<and> fetch i \<noteq> Item_without_id) news_ids"
  shows "\<exists>log. fetch_items fetch news_ids d =
           (log, Inr (fold upsert (fetched fetch news_ids) d))"
  using assms
proof (induction news_ids arbitrary: d)
  case Nil
  then show ?case by simp
next
  case (Cons i news_ids)
  show ?case
  proof (cases "fetch i")
    case (Item_raises e)
    obtain log where "fetch_items fetch news_ids d =
        (log, Inr (fold upsert (fetched fetch news_ids) d))"
      using Cons.IH [of d] Cons.prems by auto
    then show ?thesis using Item_raises by simp
  next
    case Item_null
    then show ?thesis using Cons.prems by simp
  next
    case Item_without_id
    then show ?thesis using Cons.prems by simp
  next
    case (Item_data nd)
    then show ?thesis using Cons.IH [of "upsert nd d"] Cons.prems by simp
  qed
qed

text \<open>
  C7. When the fetch of the index raises (a network error, or a body that does not
  decode), the pass logs the error and returns with the store exactly as it was: no
  row inserted, updated or deleted.
\<close>

theorem fetch_hackernews_index_failure:
  "topstories up = Index_raises e \<Longrightarrow>
   fetch_hackernews up d = (([Error_top_stories e], None), d)"
  by (simp add: fetch_hackernews_def)

theorem fetch_hackernews_index_failure_witness:
  "topstories test_upstream_down = Index_raises Connection_error \<and>
   fetch_hackernews test_upstream_down test_db =
     (([Error_top_stories Connection_error], None), test_db)"
proof -
  have h: "topstories test_upstream_down = Index_raises Connection_error"
    by (simp add: test_upstream_down_def)
  from fetch_hackernews_index_failure [OF h] h show ?thesis by blast
qed

text \<open>
  C8. The specification has a pass skip every identifier whose detail cannot be fetched
  and commit the others. A fetch that raises a \<^verbatim>\<open>RequestException\<close> is skipped so. But on
  the feed \<open>test_upstream_null\<close>, where items 1 and 3 are fetched and the endpoint
  answers \<^verbatim>\<open>null\<close> for item 2, line 45 raises a \<^verbatim>\<open>TypeError\<close> that nothing catches: the
  pass ends before its commit, item 1 keeps its old fields and item 3 is not stored.
\<close>

theorem fetch_hackernews_null_body_aborts:
  "item test_upstream_null 1 = Item_data (test_item 1) \<and>
   item test_upstream_null 3 = Item_data (test_item 3) \<and>
   item test_upstream_null 2 = Item_null \<and>
   fetch_hackernews test_upstream_null test_db = (([], Some Type_error), test_db) \<and>
   news_get 1 (snd (fetch_hackernews test_upstream_null test_db)) = Some test_news \<and>
   news_get 3 (snd (fetch_hackernews test_upstream_null test_db)) = None"
  by (simp add: fetch_hackernews_def test_upstream_null_def news_get_def test_db_def
        test_news_def)

section \<open>Retention\<close>

lemma map_news_id_update_first:
  "(\<And>x. news_id (f x) = news_id x) \<Longrightarrow> map news_id (update_first P f xs) = map news_id xs"
  by (induction xs) auto

lemma news_get_None_iff: "news_get i d = None \<longleftrightarrow> i \<notin> news_id ` set (db_news d)"
  by (auto simp: news_get_def find_None_iff)

lemma distinct_upsert:
  "distinct (map news_id (db_news d)) \<Longrightarrow> distinct (map news_id (db_news (upsert nd d)))"
  by (auto simp: upsert_def set_news_def map_news_id_update_first news_get_None_iff
        split: option.splits)

lemma distinct_fold_upsert:
  "distinct (map news_id (db_news d)) \<Longrightarrow> distinct (map news_id (db_news (fold upsert ds d)))"
  by (induction ds arbitrary: d) (simp_all add: distinct_upsert)

lemma sort_key_take_drop_le:
  assumes "x \<in> set (take k (sort_key f xs))" and "y \<in> set (drop k (sort_key f xs))"
  shows "f x \<le> f y"
proof -
  have "sorted (map f (take k (sort_key f xs) @ drop k (sort_key f xs)))"
    by simp
  then show ?thesis
    using assms unfolding map_append sorted_append by auto
qed

lemma length_filter_not_in:
  assumes "distinct xs" and "distinct ys" and "set ys \<subseteq> set xs"
  shows "length (filter (\<lambda>x. x \<notin> set ys) xs) = length xs - length ys"
proof -
  have "{x. x \<notin> set ys} \<inter> set xs = set xs - set ys" by auto
  then have "length (filter (\<lambda>x. x \<notin> set ys) xs) = card (set xs - set ys)"
    using assms(1) by (simp add: distinct_length_filter)
  also have "\<dots> = card (set xs) - card (set ys)"
    using assms(3) by (simp add: card_Diff_subset)
  finally show ?thesis
    using assms(1,2) by (simp add: distinct_card)
qed

lemma db_news_delete_news:
  assumes "distinct (map news_id (db_news d))" and "set ns \<subseteq> set (db_news d)"
  shows "db_news (delete_news (map news_id ns) d) = filter (\<lambda>n. n \<notin> set ns) (db_news d)"
proof -
  have inj: "inj_on news_id (set (db_news d))"
    using assms(1) by (simp add: distinct_map)
  have "news_id n \<notin> set (map news_id ns) \<longleftrightarrow> n \<notin> set ns" if "n \<in> set (db_news d)" for n
    using that assms(2) inj by (auto dest: inj_onD)
  then show ?thesis
    unfolding delete_news_def by (auto intro: filter_cong)
qed

lemma oldest_news_props:
  "set (oldest_news k d) \<subseteq> set (db_news d)"
  "distinct (db_news d) \<Longrightarrow> distinct (oldest_news k d)"
  "length (oldest_news k d) = min k (length (db_news d))"
  unfolding oldest_news_def
  by (auto dest: in_set_takeD simp: min_def)

lemma db_news_prune:
  assumes "distinct (map news_id (db_news d))"
  shows "db_news (prune d) =
           filter (\<lambda>n. n \<notin> set (oldest_news (length (db_news d) - 150) d)) (db_news d)"
proof (cases "length (db_news d) > 150")
  case True
  then show ?thesis
    by (simp add: prune_def db_news_delete_news [OF assms] oldest_news_props(1))
next
  case False
  then show ?thesis
    by (simp add: prune_def oldest_news_def)
qed

lemma length_prune:
  assumes "distinct (map news_id (db_news d))"
  shows "length (db_news (prune d)) = min (length (db_news d)) 150"
proof -
  have dist: "distinct (db_news d)"
    using assms by (simp add: distinct_map)
  show ?thesis
    unfolding db_news_prune [OF assms]
    by (subst length_filter_not_in)
       (auto simp: dist oldest_news_props)
qed

lemma prune_oldest:
  assumes "distinct (map news_id (db_news d))"
    and "x \<in> set (db_news d)" and "x \<notin> set (db_news (prune d))"
    and "y \<in> set (db_news (prune d))"
  shows "(news_time x, news_id x) < (news_time y, news_id y)"
proof -
  let ?k = "length (db_news d) - 150"
  let ?f = "\<lambda>n. (news_time n, news_id n)"
  let ?S = "sort_key ?f (db_news d)"
  have x: "x \<in> set (take ?k ?S)"
    using assms(2,3) unfolding db_news_prune [OF assms(1)] oldest_news_def by auto
  have "y \<in> set (db_news d)" "y \<notin> set (take ?k ?S)"
    using assms(4) unfolding db_news_prune [OF assms(1)] oldest_news_def by auto
  moreover have "set ?S = set (take ?k ?S) \<union> set (drop ?k ?S)"
    by (metis append_take_drop_id set_append)
  ultimately have y: "y \<in> set (drop ?k ?S)"
    by auto
  have le: "?f x \<le> ?f y"
    using x y by (rule sort_key_take_drop_le)
  have "x \<noteq> y" using assms(3,4) by auto
  then have "news_id x \<noteq> news_id y"
    using assms(1,2) \<open>y \<in> set (db_news d)\<close> by (auto simp: distinct_map dest: inj_onD)
  with le show ?thesis
    by (auto simp: less_le)
qed

text \<open>
  C5. After a completed pass (the index was fetched and the loop reached its commit
  with the rows \<open>d1\<close>), on a store whose rows have distinct primary keys: with \<open>T\<close>
  the rows committed by the upserts and \<open>R\<close> the rows after
  the pass, \<open>R\<close> has at most 150 rows, exactly \<open>min (length T) 150\<close> of them (so
  \<open>length T - 150\<close> rows are deleted when there are more than 150), \<open>R\<close> is \<open>T\<close>
  without the deleted rows, the others unchanged, and every deleted row is at most as
  new as every row that remains.
\<close>

theorem fetch_hackernews_retention:
  assumes "topstories up = Index_ids news_ids" and "distinct (map news_id (db_news d))"
    and "fetch_items (item up) (take 50 news_ids) d = (log, Inr d1)"
  shows "let T = db_news d1;
             R = db_news (snd (fetch_hackernews up d))
         in length R \<le> 150 \<and> length R = min (length T) 150 \<and>
            R = filter (\<lambda>n. n \<in> set R) T \<and>
            (\<forall>x \<in> set T. x \<notin> set R \<longrightarrow> (\<forall>y \<in> set R. news_time x \<le> news_time y))"
proof -
  have R: "snd (fetch_hackernews up d) = prune d1"
    using assms(1,3) by (simp add: fetch_hackernews_def)
  have dist: "distinct (map news_id (db_news d1))"
    unfolding fetch_items_fold [OF assms(3)] by (rule distinct_fold_upsert [OF assms(2)])
  have len: "length (db_news (prune d1)) = min (length (db_news d1)) 150"
    by (rule length_prune [OF dist])
  have "db_news (prune d1) = filter (\<lambda>n. n \<in> set (db_news (prune d1))) (db_news d1)"
    unfolding db_news_prune [OF dist] by (auto intro: filter_cong)
  moreover have "news_time x \<le> news_time y"
    if "x \<in> set (db_news d1)" "x \<notin> set (db_news (prune d1))" "y \<in> set (db_news (prune d1))"
    for x y
    using prune_oldest [OF dist that] by (auto simp: less_prod_def split: if_splits)
  ultimately show ?thesis
    unfolding R Let_def using len by auto
qed

theorem fetch_hackernews_retention_witness:
  "topstories test_upstream = Index_ids [1, 2, 3] \<and>
   distinct (map news_id (db_news test_db)) \<and>
   fetch_items (item test_upstream) (take 50 [1, 2, 3]) test_db =
     ([Error_news_item 2 Connection_error],
      Inr (upsert (test_item 3) (upsert (test_item 1) test_db))) \<and>
   length (db_news (snd (fetch_hackernews test_upstream test_db))) \<le> 150"
proof -
  have h1: "topstories test_upstream = Index_ids [1, 2, 3]"
    by (simp add: test_upstream_def)
  have h2: "distinct (map news_id (db_news test_db))"
    by (simp add: test_db_def)
  have h3: "fetch_items (item test_upstream) (take 50 [1, 2, 3]) test_db =
     ([Error_news_item 2 Connection_error],
      Inr (upsert (test_item 3) (upsert (test_item 1) test_db)))"
    by (simp add: test_upstream_def)
  from fetch_hackernews_retention [OF h1 h2 h3] h1 h2 h3 show ?thesis
    by (simp add: Let_def)
qed

section \<open>Deleting a user\<close>

lemma filter_update_first:
  "(\<And>x. P x \<Longrightarrow> \<not> Q x \<and> \<not> Q (f x)) \<Longrightarrow> filter Q (update_first P f xs) = filter Q xs"
  by (induction xs) auto

lemma filter_fold_set_news:
  assumes "\<And>x. news_id (f x) = news_id x" and "set js \<subseteq> X"
  shows "filter (\<lambda>n. news_id n \<notin> X) (db_news (fold (\<lambda>j. set_news j f) js d)) =
         filter (\<lambda>n. news_id n \<notin> X) (db_news d)"
  using assms(2)
proof (induction js arbitrary: d)
  case Nil
  then show ?case by simp
next
  case (Cons j js)
  have "filter (\<lambda>n. news_id n \<notin> X) (db_news (set_news j f d)) =
        filter (\<lambda>n. news_id n \<notin> X) (db_news d)"
    unfolding set_news_def using Cons.prems assms(1)
    by (simp, intro filter_update_first) auto
  with Cons show ?case by simp
qed

lemma db_users_fold_set_news [simp]: "db_users (fold (\<lambda>j. set_news j f) js d) = db_users d"
  by (induction js arbitrary: d) simp_all

lemma find_filter_None: "(\<And>x. P x \<Longrightarrow> \<not> Q x) \<Longrightarrow> find P (filter Q xs) = None"
  by (auto simp: find_None_iff)

text \<open>
  C10. A deletion that goes through (the session is an administrator's, the user
  exists) redirects to the user list and leaves in the \<^verbatim>\<open>news\<close> table exactly the rows
  the deleted user had neither liked nor disliked, each unchanged: the rows of the
  items the user had reacted to are removed by the cascade, and the user row is gone.
\<close>

theorem delete_user_cascade:
  assumes "user_by_email e d = Some a" and "isAdmin a" and "user_get i d = Some u"
  shows "fst (delete_user (Some e) i d) = Redirect ''user_list'' \<and>
         db_news (snd (delete_user (Some e) i d)) =
           filter (\<lambda>n. news_id n \<notin> set (liked_news u) \<union> set (disliked_news u)) (db_news d) \<and>
         user_get i (snd (delete_user (Some e) i d)) = None"
proof -
  let ?X = "set (liked_news u) \<union> set (disliked_news u)"
  let ?d1 = "fold (\<lambda>j. set_news j (\<lambda>n. n\<lparr>like_count := like_count n - 1\<rparr>)) (liked_news u) d"
  let ?d2 = "fold (\<lambda>j. set_news j (\<lambda>n. n\<lparr>dislike_count := dislike_count n - 1\<rparr>))
               (disliked_news u) ?d1"
  have res: "delete_user (Some e) i d = (Redirect ''user_list'', session_delete_user u ?d2)"
    using assms by (simp add: delete_user_def)
  have "filter (\<lambda>n. news_id n \<notin> ?X) (db_news ?d2) = filter (\<lambda>n. news_id n \<notin> ?X) (db_news ?d1)"
    by (rule filter_fold_set_news) auto
  also have "\<dots> = filter (\<lambda>n. news_id n \<notin> ?X) (db_news d)"
    by (rule filter_fold_set_news) auto
  finally have news: "db_news (session_delete_user u ?d2) =
      filter (\<lambda>n. news_id n \<notin> ?X) (db_news d)"
    by (simp add: session_delete_user_def delete_news_def)
  have "user_id u = i"
    using assms(3) unfolding user_get_def by (auto dest: find_Some_iff [THEN iffD1])
  then have "user_get i (session_delete_user u ?d2) = None"
    by (auto simp: user_get_def session_delete_user_def delete_news_def find_None_iff)
  with res news show ?thesis by simp
qed

theorem delete_user_cascade_witness:
  "user_by_email ''jane.kalashn@gmail.com'' admin_db = Some admin_user \<and> isAdmin admin_user \<and>
   user_get 2 admin_db = Some reader_user \<and>
   fst (delete_user (Some ''jane.kalashn@gmail.com'') 2 admin_db) = Redirect ''user_list'' \<and>
   db_news (snd (delete_user (Some ''jane.kalashn@gmail.com'') 2 admin_db)) = [news_C]"
proof -
  have h1: "user_by_email ''jane.kalashn@gmail.com'' admin_db = Some admin_user"
    by (simp add: user_by_email_def admin_db_def admin_user_def)
  have h2: "isAdmin admin_user" by (simp add: admin_user_def)
  have h3: "user_get 2 admin_db = Some reader_user"
    by (simp add: user_get_def admin_db_def admin_user_def reader_user_def)
  have "filter (\<lambda>n. news_id n \<notin> set (liked_news reader_user) \<union> set (disliked_news reader_user))
          (db_news admin_db) = [news_C]"
    by (simp add: admin_db_def reader_user_def news_A_def news_B_def news_C_def)
  with delete_user_cascade [OF h1 h2 h3] h1 h2 h3 show ?thesis by simp
qed

text \<open>
  C9. The specification has the items a deleted user had liked or disliked carry
  counters decremented by one afterwards. On the store \<open>admin_db\<close>, where the reader liked item 10
  (\<^verbatim>\<open>like_count\<close> 3) and disliked item 20 (\<^verbatim>\<open>dislike_count\<close> 2), the route removes the
  user row and, by the cascade, the rows of items 10 and 20 themselves: no row is left
  to carry the counts 2 and 1.
\<close>

theorem delete_user_drops_reacted_items:
  "news_get 10 admin_db = Some news_A \<and> like_count news_A = 3 \<and>
   news_get 20 admin_db = Some news_B \<and> dislike_count news_B = 2 \<and>
   liked_news reader_user = [10] \<and> disliked_news reader_user = [20] \<and>
   fst (delete_user (Some ''jane.kalashn@gmail.com'') 2 admin_db) = Redirect ''user_list'' \<and>
   news_get 10 (snd (delete_user (Some ''jane.kalashn@gmail.com'') 2 admin_db)) = None \<and>
   news_get 20 (snd (delete_user (Some ''jane.kalashn@gmail.com'') 2 admin_db)) = None \<and>
   user_get 2 (snd (delete_user (Some ''jane.kalashn@gmail.com'') 2 admin_db)) = None"
  by (simp add: delete_user_def session_delete_user_def delete_news_def set_news_def
        user_by_email_def user_get_def news_get_def admin_db_def admin_user_def
        reader_user_def news_A_def news_B_def news_C_def)

section \<open>Running the pass twice\<close>

lemma overwrite_overwrite [simp]: "overwrite x (overwrite nd n) = overwrite x n"
  by (simp add: overwrite_def)

lemma news_time_overwrite [simp]: "news_time (overwrite nd n) = data_time nd"
  by (simp add: overwrite_def)

lemma news_get_fold_upsert:
  "news_get i (fold upsert ds d) =
     (case latest ds i of
        None \<Rightarrow> news_get i d
      | Some nd \<Rightarrow> Some (overwrite nd (case news_get i d of None \<Rightarrow> News i | Some n \<Rightarrow> n)))"
proof (induction ds arbitrary: d)
  case Nil
  then show ?case by simp
next
  case (Cons nd ds)
  show ?case
    by (simp add: Cons.IH news_get_upsert split: option.splits)
qed

lemma db_users_fold_upsert [simp]: "db_users (fold upsert ds d) = db_users d"
  by (induction ds arbitrary: d) simp_all

lemma news_get_id: "news_get i d = Some n \<Longrightarrow> news_id n = i"
  unfolding news_get_def by (auto simp: find_Some_iff)

lemma news_get_in_set: "news_get i d = Some n \<Longrightarrow> n \<in> set (db_news d)"
  unfolding news_get_def by (rule find_Some_in_set)

lemma in_set_news_get:
  assumes "distinct (map news_id (db_news d))" and "n \<in> set (db_news d)"
  shows "news_get (news_id n) d = Some n"
proof -
  obtain m where m: "news_get (news_id n) d = Some m"
    using assms(2) by (cases "news_get (news_id n) d") (auto simp: news_get_None_iff)
  then have "m \<in> set (db_news d)" "news_id m = news_id n"
    by (auto dest: news_get_in_set news_get_id)
  then have "m = n"
    using assms by (auto simp: distinct_map dest: inj_onD)
  with m show ?thesis by simp
qed

lemma upsert_ids_extend:
  "\<exists>zs. map news_id (db_news (upsert nd d)) = map news_id (db_news d) @ zs"
  by (auto simp: upsert_def set_news_def map_news_id_update_first split: option.splits)

lemma fold_upsert_ids_extend:
  "\<exists>zs. map news_id (db_news (fold upsert ds d)) = map news_id (db_news d) @ zs"
proof (induction ds arbitrary: d)
  case Nil
  then show ?case by simp
next
  case (Cons nd ds)
  obtain zs1 where "map news_id (db_news (upsert nd d)) = map news_id (db_news d) @ zs1"
    using upsert_ids_extend by blast
  moreover obtain zs2 where "map news_id (db_news (fold upsert ds (upsert nd d))) =
      map news_id (db_news (upsert nd d)) @ zs2"
    using Cons.IH by blast
  ultimately show ?case by simp
qed


lemma take_sort_key_unique:
  assumes "distinct xs" and "A \<subseteq> set xs" and "card A = k"
    and "\<And>a b. a \<in> A \<Longrightarrow> b \<in> set xs \<Longrightarrow> b \<notin> A \<Longrightarrow> f a < f b"
  shows "set (take k (sort_key f xs)) = A"
proof -
  let ?S = "sort_key f xs"
  let ?T = "set (take k ?S)"
  have finA: "finite A" using assms(2) by (rule finite_subset) simp
  have "card A \<le> card (set xs)" using assms(2) by (simp add: card_mono)
  then have k: "k \<le> length ?S" using assms(1,3) by (simp add: distinct_card)
  have "distinct (take k ?S)" using assms(1) by simp
  then have cardT: "card ?T = k" using k by (simp add: distinct_card)
  have split: "set xs = ?T \<union> set (drop k ?S)"
    by (metis append_take_drop_id set_append set_sort)
  have "A \<subseteq> ?T"
  proof (rule ccontr)
    assume "\<not> A \<subseteq> ?T"
    then obtain a where a: "a \<in> A" "a \<notin> ?T" by blast
    then have a_drop: "a \<in> set (drop k ?S)" using assms(2) split by blast
    have "\<not> ?T \<subseteq> A"
    proof
      assume "?T \<subseteq> A"
      then have "?T = A" using finA cardT assms(3) by (simp add: card_subset_eq)
      with a show False by simp
    qed
    then obtain b where b: "b \<in> ?T" "b \<notin> A" by blast
    then have "b \<in> set xs" using split by blast
    with a(1) b(2) have "f a < f b" by (simp add: assms(4))
    moreover have "f b \<le> f a" using b(1) a_drop by (rule sort_key_take_drop_le)
    ultimately show False by simp
  qed
  then have "A = ?T" using cardT assms(3) by (intro card_subset_eq) simp_all
  then show ?thesis by simp
qed

lemma delete_news_users_absorb:
  assumes "set js \<subseteq> set is" and "db_users d' = db_users (delete_news is d0)"
  shows "db_users (delete_news js d') = db_users d'"
proof -
  have absorb: "filter (\<lambda>i. i \<notin> set js) (filter (\<lambda>i. i \<notin> set is) xs) =
      filter (\<lambda>i. i \<notin> set is) xs" for xs :: "int list"
    using assms(1) by (auto intro: filter_cong)
  have "db_users (delete_news js (delete_news is d0)) = db_users (delete_news is d0)"
    unfolding delete_news_def by (simp add: absorb del: filter_filter)
  then show ?thesis
    using assms(2) by (simp add: delete_news_def)
qed


lemma distinct_prune:
  assumes "distinct (map news_id (db_news d))"
  shows "distinct (map news_id (db_news (prune d)))"
  unfolding db_news_prune [OF assms] using assms by (rule distinct_map_filter)

lemma db_eqI: "db_users a = db_users b \<Longrightarrow> db_news a = db_news b \<Longrightarrow> a = (b :: db)"
  by (rule db.equality) simp_all

lemma prune_small: "length (db_news d) \<le> 150 \<Longrightarrow> prune d = d"
  by (simp add: prune_def)

lemma second_pass:
  assumes dist: "distinct (map news_id (db_news d))"
  shows "prune (fold upsert ds (prune (fold upsert ds d))) = prune (fold upsert ds d)"
proof -
  define d1 where "d1 = fold upsert ds d"
  define d2 where "d2 = prune d1"
  define d3 where "d3 = fold upsert ds d2"
  define old where "old = oldest_news (length (db_news d1) - 150) d1"
  have dist1: "distinct (map news_id (db_news d1))"
    unfolding d1_def by (rule distinct_fold_upsert [OF dist])
  have dist2: "distinct (map news_id (db_news d2))"
    unfolding d2_def by (rule distinct_prune [OF dist1])
  have dist3: "distinct (map news_id (db_news d3))"
    unfolding d3_def by (rule distinct_fold_upsert [OF dist2])
  have rows2: "db_news d2 = filter (\<lambda>n. n \<notin> set old) (db_news d1)"
    unfolding d2_def old_def by (rule db_news_prune [OF dist1])
  have sub21: "set (db_news d2) \<subseteq> set (db_news d1)"
    unfolding rows2 by auto
  have users3: "db_users d3 = db_users d2"
    by (simp add: d3_def)

  have kept: "news_get (news_id n) d3 = Some n" if n: "n \<in> set (db_news d2)" for n
  proof -
    have g1: "news_get (news_id n) d1 = Some n"
      using n sub21 by (intro in_set_news_get [OF dist1]) auto
    have g2: "news_get (news_id n) d2 = Some n"
      using n by (rule in_set_news_get [OF dist2])
    show ?thesis
    proof (cases "latest ds (news_id n)")
      case None
      then show ?thesis by (simp add: d3_def news_get_fold_upsert g2)
    next
      case (Some nd)
      define m where "m = (case news_get (news_id n) d of
          None \<Rightarrow> News (news_id n) | Some m \<Rightarrow> m)"
      from g1 Some have eq: "overwrite nd m = n"
        by (simp add: d1_def m_def news_get_fold_upsert)
      have "overwrite nd (overwrite nd m) = overwrite nd m"
        by simp
      then have "overwrite nd n = n"
        unfolding eq .
      then show ?thesis
        using Some by (simp add: d3_def news_get_fold_upsert g2)
    qed
  qed

  obtain zs where ids3: "map news_id (db_news d3) = map news_id (db_news d2) @ zs"
    unfolding d3_def using fold_upsert_ids_extend by blast
  have "length (map news_id (db_news d3)) = length (map news_id (db_news d2) @ zs)"
    by (simp only: ids3)
  then have len23: "length (db_news d2) \<le> length (db_news d3)"
    by simp
  have "take (length (db_news d2)) (db_news d3) = db_news d2"
  proof (rule nth_equalityI)
    show "length (take (length (db_news d2)) (db_news d3)) = length (db_news d2)"
      using len23 by simp
  next
    fix p assume "p < length (take (length (db_news d2)) (db_news d3))"
    then have p: "p < length (db_news d2)" by simp
    then have p3: "p < length (db_news d3)" using len23 by simp
    have "map news_id (db_news d3) ! p = map news_id (db_news d2) ! p"
      unfolding ids3 using p by (simp add: nth_append)
    then have same_id: "news_id (db_news d3 ! p) = news_id (db_news d2 ! p)"
      using p p3 by simp
    have A: "news_get (news_id (db_news d3 ! p)) d3 = Some (db_news d3 ! p)"
      using p3 by (intro in_set_news_get [OF dist3]) simp
    have B: "news_get (news_id (db_news d2 ! p)) d3 = Some (db_news d2 ! p)"
      using p by (intro kept) simp
    have "Some (db_news d3 ! p) = Some (db_news d2 ! p)"
      using A [unfolded same_id] B by (rule trans [OF sym])
    then have "db_news d3 ! p = db_news d2 ! p"
      by (rule option.inject [THEN iffD1])
    then show "take (length (db_news d2)) (db_news d3) ! p = db_news d2 ! p"
      using p by simp
  qed
  then obtain rest where rows3: "db_news d3 = db_news d2 @ rest"
    by (metis append_take_drop_id)

  have fresh: "\<exists>r \<in> set (db_news d1). r \<notin> set (db_news d2) \<and>
      news_id r = news_id x \<and> news_time r = news_time x" if x: "x \<in> set rest" for x
  proof -
    have notin2: "news_id x \<notin> news_id ` set (db_news d2)"
      using dist3 x unfolding rows3 by auto
    then have g2: "news_get (news_id x) d2 = None"
      by (simp add: news_get_None_iff)
    have g3: "news_get (news_id x) d3 = Some x"
      using x by (intro in_set_news_get [OF dist3]) (simp add: rows3)
    from g3 g2 obtain nd where nd: "latest ds (news_id x) = Some nd"
      by (cases "latest ds (news_id x)") (simp_all add: d3_def news_get_fold_upsert)
    from g3 g2 nd have xeq: "x = overwrite nd (News (news_id x))"
      by (simp add: d3_def news_get_fold_upsert)
    define r where "r = overwrite nd (case news_get (news_id x) d of
        None \<Rightarrow> News (news_id x) | Some m \<Rightarrow> m)"
    have g1: "news_get (news_id x) d1 = Some r"
      using nd by (simp add: d1_def r_def news_get_fold_upsert)
    have "news_id r = news_id x" using g1 by (rule news_get_id)
    moreover have "news_time r = data_time nd"
      by (simp add: r_def)
    moreover have "news_time x = data_time nd"
      by (subst xeq) simp
    ultimately have same: "news_id r = news_id x" "news_time r = news_time x"
      by simp_all
    note same
    moreover have "r \<in> set (db_news d1)" using g1 by (rule news_get_in_set)
    moreover have "r \<notin> set (db_news d2)"
    proof
      assume "r \<in> set (db_news d2)"
      then have "news_id r \<in> news_id ` set (db_news d2)" by (rule imageI)
      with notin2 show False unfolding same(1) by (rule notE)
    qed
    ultimately show ?thesis by blast
  qed

  have disj: "set (db_news d2) \<inter> set rest = {}"
    using dist3 unfolding rows3 by auto
  have dist_rest: "distinct rest"
    using dist3 unfolding rows3 by (simp add: distinct_map)

  show ?thesis
  proof (cases "rest = []")
    case True
    then have "d3 = d2"
      using rows3 users3 by (intro db_eqI) simp_all
    moreover have "prune d2 = d2"
      unfolding d2_def using length_prune [OF dist1] by (intro prune_small) simp
    ultimately show ?thesis
      unfolding d3_def d2_def d1_def by simp
  next
    case False
    then obtain x where "x \<in> set rest" by (cases rest) auto
    from fresh [OF this] have "db_news d2 \<noteq> db_news d1" by auto
    then have big: "length (db_news d1) > 150"
      unfolding d2_def using prune_small [of d1] by (cases "length (db_news d1) > 150") auto
    then have len2: "length (db_news d2) = 150"
      unfolding d2_def using length_prune [OF dist1] by simp
    have k: "length (db_news d3) - 150 = length rest"
      unfolding rows3 using len2 by simp
    have big3: "length (db_news d3) > 150"
      unfolding rows3 using len2 False by simp
    have lt: "(news_time a, news_id a) < (news_time b, news_id b)"
      if "a \<in> set rest" "b \<in> set (db_news d3)" "b \<notin> set rest" for a b
    proof -
      from fresh [OF that(1)] obtain r where r: "r \<in> set (db_news d1)"
        "r \<notin> set (db_news d2)" "news_id r = news_id a" "news_time r = news_time a"
        by blast
      have "b \<in> set (db_news d2)" using that(2,3) by (simp add: rows3)
      then have "(news_time r, news_id r) < (news_time b, news_id b)"
        using r(1,2) unfolding d2_def by (intro prune_oldest [OF dist1]) simp_all
      then show ?thesis by (simp add: r(3,4))
    qed
    have old3: "set (oldest_news (length rest) d3) = set rest"
      unfolding oldest_news_def
    proof (rule take_sort_key_unique)
      show "distinct (db_news d3)" using dist3 by (simp add: distinct_map)
      show "set rest \<subseteq> set (db_news d3)" by (simp add: rows3)
      show "card (set rest) = length rest" using dist_rest by (rule distinct_card)
    qed (rule lt)
    have news4: "db_news (prune d3) = db_news d2"
    proof -
      have "db_news (prune d3) = filter (\<lambda>n. n \<notin> set rest) (db_news d3)"
        unfolding db_news_prune [OF dist3] k old3 ..
      also have "\<dots> = db_news d2"
        unfolding rows3 using disj by (auto simp: filter_id_conv filter_empty_conv)
      finally show ?thesis .
    qed
    have "news_id ` set rest \<subseteq> set (map news_id old)"
    proof
      fix i assume "i \<in> news_id ` set rest"
      then obtain x where x: "x \<in> set rest" "i = news_id x" by blast
      from fresh [OF x(1)] obtain r where r: "r \<in> set (db_news d1)"
        "r \<notin> set (db_news d2)" "news_id r = news_id x" by blast
      then have "r \<in> set old" unfolding rows2 by simp
      then have "news_id r \<in> news_id ` set old" by (rule imageI)
      then show "i \<in> set (map news_id old)" unfolding x(2) r(3) set_map .
    qed
    then have sub: "set (map news_id (oldest_news (length rest) d3)) \<subseteq> set (map news_id old)"
      using old3 by simp
    have users2: "db_users d3 = db_users (delete_news (map news_id old) d1)"
      unfolding users3 d2_def prune_def old_def using big by simp
    have "db_users (prune d3) =
        db_users (delete_news (map news_id (oldest_news (length rest) d3)) d3)"
      using big3 k by (simp add: prune_def)
    also have "\<dots> = db_users d3"
      using sub users2 by (rule delete_news_users_absorb)
    finally have users4: "db_users (prune d3) = db_users d2"
      using users3 by simp
    have "prune d3 = d2"
      using users4 news4 by (rule db_eqI)
    then show ?thesis
      unfolding d3_def d2_def d1_def .
  qed
qed


text \<open>
  C4. On a store whose rows have distinct primary keys, a second pass over the same
  upstream data returns what the first returned: the same log, the same outcome and the
  same store, row for row and field for field. The rows after a pass still have distinct
  primary keys, so no row is duplicated. Rows the first pass pruned and the second
  fetches again are inserted and pruned again, being older than every row kept.
\<close>

theorem fetch_hackernews_idempotent:
  assumes "distinct (map news_id (db_news d))"
  shows "fetch_hackernews up (snd (fetch_hackernews up d)) = fetch_hackernews up d \<and>
         distinct (map news_id (db_news (snd (fetch_hackernews up d))))"
proof (cases "topstories up")
  case (Index_raises e)
  then show ?thesis
    using assms by (simp add: fetch_hackernews_def)
next
  case (Index_ids news_ids)
  let ?ds = "fetched (item up) (take 50 news_ids)"
  obtain log r where loop: "fetch_items (item up) (take 50 news_ids) d = (log, r)"
    by (cases "fetch_items (item up) (take 50 news_ids) d")
  show ?thesis
  proof (cases r)
    case (Inl e)
    then show ?thesis
      using assms Index_ids loop by (simp add: fetch_hackernews_def)
  next
    case (Inr d1)
    have d1: "d1 = fold upsert ?ds d"
      using loop unfolding Inr by (rule fetch_items_fold)
    have first: "fetch_hackernews up d = ((log, None), prune (fold upsert ?ds d))"
      using Index_ids loop Inr d1 by (simp add: fetch_hackernews_def)
    have "fetch_items (item up) (take 50 news_ids) (prune (fold upsert ?ds d)) =
        (log, Inr (fold upsert ?ds (prune (fold upsert ?ds d))))"
      using fetch_items_shape [of "item up" "take 50 news_ids" "prune (fold upsert ?ds d)" d]
      by (simp add: loop Inr)
    then have second: "fetch_hackernews up (prune (fold upsert ?ds d)) =
        ((log, None), prune (fold upsert ?ds (prune (fold upsert ?ds d))))"
      using Index_ids by (simp add: fetch_hackernews_def)
    have "prune (fold upsert ?ds (prune (fold upsert ?ds d))) = prune (fold upsert ?ds d)"
      by (rule second_pass [OF assms])
    moreover have "distinct (map news_id (db_news (prune (fold upsert ?ds d))))"
      by (intro distinct_prune distinct_fold_upsert assms)
    ultimately show ?thesis
      by (simp add: first second)
  qed
qed

theorem fetch_hackernews_idempotent_witness:
  "distinct (map news_id (db_news test_db)) \<and>
   fetch_hackernews test_upstream (snd (fetch_hackernews test_upstream test_db)) =
     fetch_hackernews test_upstream test_db"
proof -
  have h: "distinct (map news_id (db_news test_db))"
    by (simp add: test_db_def)
  from fetch_hackernews_idempotent [OF h, of test_upstream] h show ?thesis by blast
qed

end
